theory Spec2Isabelle
  imports Main "HOL-Library.AList" "HOL-Library.Multiset"
begin

section \<open>The purchase validator of cordova-plugin-purchase (src/js/validator.js)\<close>

text \<open>
  The file keeps two module variables, the array \<^verbatim>\<open>validationRequests\<close> and the timer
  handle \<^verbatim>\<open>timeout\<close>, and three functions: \<^verbatim>\<open>store._validator\<close> (the entry point),
  \<^verbatim>\<open>scheduleValidation\<close> (the debounce) and \<^verbatim>\<open>runValidation\<close> (grouping by product id,
  one POST per group, fan-out of the outcome). Everything the functions touch is made an
  explicit part of a \<open>world\<close> that each function takes and returns: the module variables,
  the store's settings, the objects the JavaScript references point to, the platform's
  timers and clock, and the calls made to collaborators.

  The collaborators are not in this file. A callback, \<^verbatim>\<open>store.utils.ajax\<close> and a
  function set as \<^verbatim>\<open>store.validator\<close> are called and return: the call is recorded, and
  what they do beyond that is not part of the model. \<^verbatim>\<open>store.getApplicationUsername\<close> is
  a function that reads and does not write. The calls of \<^verbatim>\<open>store.log.debug\<close> are left
  out. An exception thrown by the file's own code is part of the model.
\<close>

subsection \<open>JavaScript values\<close>

text \<open>
  Values that are passed around without being mutated: parsed response bodies, property
  values, arguments of callbacks. Numbers are integers here (no NaN, no fractions).
\<close>

datatype jsval =
    Undefined
  | Null
  | Bool bool
  | Num int
  | Str string
  | Arr "jsval list"
  | Obj "(string \<times> jsval) list"

text \<open>What \<^verbatim>\<open>!v\<close> and \<^verbatim>\<open>v && ...\<close> test.\<close>

fun truthy :: "jsval \<Rightarrow> bool" where
  "truthy Undefined = False"
| "truthy Null = False"
| "truthy (Bool b) = b"
| "truthy (Num n) = (n \<noteq> 0)"
| "truthy (Str s) = (s \<noteq> [])"
| "truthy (Arr vs) = True"
| "truthy (Obj ps) = True"

datatype js_error = TypeError

text \<open>
  Reading an own property of a plain object whose properties are the list \<open>ps\<close>, in
  insertion order. The keys read this way (\<^verbatim>\<open>ok\<close>, \<^verbatim>\<open>data\<close>, \<^verbatim>\<open>applicationUsername\<close>)
  are not properties of \<^verbatim>\<open>Object.prototype\<close>, so a missing key reads as undefined.
\<close>

definition own_prop :: "(string \<times> jsval) list \<Rightarrow> string \<Rightarrow> jsval" where
  "own_prop ps k = (case map_of ps k of None \<Rightarrow> Undefined | Some v \<Rightarrow> v)"

text \<open>
  \<^verbatim>\<open>v.k\<close> for a value \<open>v\<close>, for the same keys: a TypeError on undefined and null,
  undefined on the other primitives and on arrays.
\<close>

fun get_prop :: "jsval \<Rightarrow> string \<Rightarrow> js_error + jsval" where
  "get_prop Undefined k = Inl TypeError"
| "get_prop Null k = Inl TypeError"
| "get_prop (Obj ps) k = Inr (own_prop ps k)"
| "get_prop (Bool b) k = Inr Undefined"
| "get_prop (Num n) k = Inr Undefined"
| "get_prop (Str s) k = Inr Undefined"
| "get_prop (Arr vs) k = Inr Undefined"

text \<open>Decimal digits of a number, as string concatenation prints an integer.\<close>

definition digit_chars :: string where
  "digit_chars = ''0123456789''"

function show_nat :: "nat \<Rightarrow> string" where
  "show_nat n =
     (if n < 10 then [digit_chars ! n]
      else show_nat (n div 10) @ [digit_chars ! (n mod 10)])"
  by pat_completeness auto
termination
  by (relation "measure (\<lambda>n. n)") auto

declare show_nat.simps [simp del]

definition show_int :: "int \<Rightarrow> string" where
  "show_int i = (if i < 0 then CHR ''-'' # show_nat (nat (- i)) else show_nat (nat i))"

subsection \<open>Plain objects used as dictionaries\<close>

text \<open>
  \<^verbatim>\<open>byProduct\<close> is created as \<^verbatim>\<open>{}\<close>, so \<^verbatim>\<open>byProduct[productId]\<close> also finds what every
  object inherits from \<^verbatim>\<open>Object.prototype\<close>. These inherited values are functions (and,
  for \<^verbatim>\<open>__proto__\<close>, the prototype object): all truthy, none with a \<^verbatim>\<open>callbacks\<close> property.
\<close>

definition object_prototype_keys :: "string list" where
  "object_prototype_keys =
     [''constructor'', ''toString'', ''toLocaleString'', ''valueOf'', ''hasOwnProperty'',
      ''isPrototypeOf'', ''propertyIsEnumerable'', ''__proto__'', ''__defineGetter__'',
      ''__defineSetter__'', ''__lookupGetter__'', ''__lookupSetter__'']"

text \<open>
  \<^verbatim>\<open>Object.keys\<close> lists the own keys that are array indices first, in ascending numeric
  order, then the other keys in insertion order. An array index is the canonical decimal
  string of a number below \<open>2^32 - 1\<close>.
\<close>

definition digit_value :: "char \<Rightarrow> nat" where
  "digit_value c = length (takeWhile (\<lambda>d. d \<noteq> c) digit_chars)"

definition dec_value :: "string \<Rightarrow> nat" where
  "dec_value k = foldl (\<lambda>n c. 10 * n + digit_value c) 0 k"

definition is_array_index :: "string \<Rightarrow> bool" where
  "is_array_index k =
     (k \<noteq> [] \<and> list_all (\<lambda>c. c \<in> set digit_chars) k \<and> (k = ''0'' \<or> hd k \<noteq> CHR ''0'')
      \<and> length k \<le> 10 \<and> dec_value k < 4294967295)"

definition object_entries :: "(string \<times> 'a) list \<Rightarrow> (string \<times> 'a) list" where
  "object_entries obj =
     sort_key (\<lambda>(k, v). dec_value k) (filter (\<lambda>(k, v). is_array_index k) obj)
     @ filter (\<lambda>(k, v). \<not> is_array_index k) obj"

subsection \<open>Products and the objects they reference\<close>

text \<open>
  A product is an object the caller owns; requests hold a reference to it, and the
  dispatcher writes to it. References are addresses into a heap. \<open>additionalData\<close> is
  either falsy (\<open>None\<close>: undefined or null) or a reference to a plain object; the remaining
  fields of a product are not read by this file.
\<close>

type_synonym addr = nat

record product =
  product_id :: string
  additionalData :: "addr option"
  other_fields :: "(string \<times> jsval) list"

record heap =
  products :: "addr \<Rightarrow> product"
  objects :: "addr \<Rightarrow> (string \<times> jsval) list"
  next_object :: addr

text \<open>What a product looks like when it is serialised as a request body.\<close>

record payload =
  payload_id :: string
  payload_additionalData :: "(string \<times> jsval) list option"
  payload_fields :: "(string \<times> jsval) list"

definition snapshot :: "heap \<Rightarrow> addr \<Rightarrow> payload" where
  "snapshot h p =
     \<lparr>payload_id = product_id (products h p),
      payload_additionalData = map_option (objects h) (additionalData (products h p)),
      payload_fields = other_fields (products h p)\<rparr>"

text \<open>
  Lines 151-153: \<^verbatim>\<open>if (!product.additionalData) product.additionalData = {}\<close>. The new
  object is allocated at the next free address.
\<close>

definition ensure_additionalData :: "heap \<Rightarrow> addr \<Rightarrow> heap \<times> addr" where
  "ensure_additionalData h p =
     (case additionalData (products h p) of
        Some a \<Rightarrow> (h, a)
      | None \<Rightarrow>
          (let a = next_object h
           in (h\<lparr>products := (products h)(p := (products h p)\<lparr>additionalData := Some a\<rparr>),
                 objects := (objects h)(a := []),
                 next_object := Suc a\<rparr>, a)))"

text \<open>
  Lines 150-160. \<open>getApplicationUsername\<close> stands for \<^verbatim>\<open>store.getApplicationUsername\<close>,
  which is defined elsewhere: a function of the product that may read the heap.
\<close>

definition ensure_applicationUsername ::
  "(heap \<Rightarrow> addr \<Rightarrow> jsval) \<Rightarrow> heap \<Rightarrow> addr \<Rightarrow> heap" where
  "ensure_applicationUsername getApplicationUsername h p =
     (let (h1, a) = ensure_additionalData h p;
          h2 = (if \<not> truthy (own_prop (objects h1 a) ''applicationUsername'')
                then h1\<lparr>objects := (objects h1)
                        (a := AList.update ''applicationUsername''
                                (getApplicationUsername h1 p) (objects h1 a))\<rparr>
                else h1);
          h3 = (if \<not> truthy (own_prop (objects h2 a) ''applicationUsername'')
                then h2\<lparr>objects := (objects h2)
                        (a := AList.delete ''applicationUsername'' (objects h2 a))\<rparr>
                else h2)
      in h3)"

subsection \<open>The world: module variables, settings, platform\<close>

type_synonym callback = nat

text \<open>
  \<^verbatim>\<open>store.validator\<close>: null, a URL, or a function. Callbacks and functions are named by
  numbers.
\<close>

datatype validator = Unset | Url string | Custom nat

fun validator_truthy :: "validator \<Rightarrow> bool" where
  "validator_truthy Unset = False"
| "validator_truthy (Url u) = (u \<noteq> [])"
| "validator_truthy (Custom f) = True"

record request =
  product :: addr
  callback :: callback

record batch =
  batch_product :: addr
  callbacks :: "callback list"

text \<open>
  Modelled from the spec: \<^verbatim>\<open>store.utils.ajax\<close> is defined elsewhere; the spec has it
  POST the product it is given as the request body, and later call one of the two
  closures. A call is recorded with the arguments it was given: \<open>data\<close> is the reference
  passed, \<open>body\<close> is the product as it stands when the call is made, and \<open>waiting\<close> is
  \<^verbatim>\<open>request.callbacks\<close>, the list both the \<^verbatim>\<open>success\<close> and the \<^verbatim>\<open>error\<close> closure
  iterate over.
\<close>

record ajax_call =
  url :: validator
  http_method :: string
  data :: addr
  body :: payload
  waiting :: "callback list"

datatype arg = Val jsval | ProductRef addr

datatype event =
    Invoke callback arg arg
  | CallValidator nat addr callback
  | Prepare addr

record world =
  validator :: validator
  validationRequests :: "request list"
  timeout :: "nat option"
  mem :: heap
  now :: nat
  timers :: "(nat \<times> nat) list"
  timers_created :: nat
  calls :: "ajax_call list"
  trace :: "event list"

subsection \<open>The debounce timer\<close>

text \<open>
  The platform's timers, restricted to those that run \<^verbatim>\<open>runValidation\<close>: a pending timer
  is its handle and the time it is due. Handles are positive integers, as the HTML
  standard has them. Time is in milliseconds.
\<close>

definition clearTimeout :: "nat \<Rightarrow> world \<Rightarrow> world" where
  "clearTimeout h s = s\<lparr>timers := filter (\<lambda>(h', due). h' \<noteq> h) (timers s)\<rparr>"

definition setTimeout :: "nat \<Rightarrow> world \<Rightarrow> nat \<times> world" where
  "setTimeout delay s =
     (let h = Suc (timers_created s)
      in (h, s\<lparr>timers := timers s @ [(h, now s + delay)], timers_created := h\<rparr>))"

text \<open>Lines 185-190.\<close>

definition scheduleValidation :: "world \<Rightarrow> world" where
  "scheduleValidation s =
     (let s1 = (case timeout s of
                  Some h \<Rightarrow> if h \<noteq> 0 then clearTimeout h s else s
                | None \<Rightarrow> s);
          (h, s2) = setTimeout 1500 s1
      in s2\<lparr>timeout := Some h\<rparr>)"

text \<open>Lines 214-218: the push onto the queue followed by \<^verbatim>\<open>scheduleValidation()\<close>.\<close>

definition enqueue :: "request \<Rightarrow> world \<Rightarrow> world" where
  "enqueue r s = scheduleValidation (s\<lparr>validationRequests := validationRequests s @ [r]\<rparr>)"

definition advance :: "nat \<Rightarrow> world \<Rightarrow> world" where
  "advance d s = s\<lparr>now := now s + d\<rparr>"

subsection \<open>The entry point\<close>

text \<open>
  Lines 200-223. \<open>prepareForValidation\<close> stands for \<^verbatim>\<open>store._prepareForValidation\<close>:
  \<open>None\<close> when it is not set, \<open>Some f\<close> when it is. Its call is recorded as \<open>Prepare\<close>,
  and \<open>f product\<close> is all that happens to the world from then until the pre-step calls
  the function it was given, which it does once. That function calls
  \<^verbatim>\<open>store._validator(product, callback, true)\<close>.
\<close>

function store_validator ::
  "(addr \<Rightarrow> world \<Rightarrow> world) option \<Rightarrow> addr \<Rightarrow> callback \<Rightarrow> jsval \<Rightarrow> world \<Rightarrow> world" where
  "store_validator prepareForValidation p cb isPrepared s =
     (if \<not> validator_truthy (validator s) then
        s\<lparr>trace := trace s @ [Invoke cb (Val (Bool True)) (ProductRef p)]\<rparr>
      else if prepareForValidation \<noteq> None \<and> isPrepared \<noteq> Bool True then
        store_validator prepareForValidation p cb (Bool True)
          ((the prepareForValidation) p (s\<lparr>trace := trace s @ [Prepare p]\<rparr>))
      else
        (case validator s of
           Url u \<Rightarrow> enqueue \<lparr>product = p, callback = cb\<rparr> s
         | Custom f \<Rightarrow> s\<lparr>trace := trace s @ [CallValidator f p cb]\<rparr>
         | Unset \<Rightarrow> s))"
  by pat_completeness auto
termination
  by (relation "measure (\<lambda>(f, p, cb, isPrepared, s). if isPrepared = Bool True then 0 else 1)")
     auto

declare store_validator.simps [simp del]

subsection \<open>The dispatcher\<close>

text \<open>
  Lines 130-143, one iteration of the grouping loop. \<^verbatim>\<open>byProduct[productId]\<close> is the
  batch stored under the id, if there is one. If there is none and the id names an
  inherited property, the test on line 132 succeeds all the same, the value it found has
  no \<^verbatim>\<open>callbacks\<close>, and the \<^verbatim>\<open>push\<close> on line 133 throws. Otherwise the batch is created.
\<close>

definition merge_request ::
  "heap \<Rightarrow> (string \<times> batch) list \<Rightarrow> request \<Rightarrow> js_error + (string \<times> batch) list" where
  "merge_request h byProduct r =
     (let productId = product_id (products h (product r))
      in case map_of byProduct productId of
           Some b \<Rightarrow>
             Inr (AList.update productId
                    \<lparr>batch_product = product r, callbacks = callbacks b @ [callback r]\<rparr>
                    byProduct)
         | None \<Rightarrow>
             if productId \<in> set object_prototype_keys then Inl TypeError
             else Inr (byProduct @ [(productId,
                         \<lparr>batch_product = product r, callbacks = [callback r]\<rparr>)]))"

fun group_requests ::
  "heap \<Rightarrow> (string \<times> batch) list \<Rightarrow> request list \<Rightarrow> js_error + (string \<times> batch) list" where
  "group_requests h byProduct [] = Inr byProduct"
| "group_requests h byProduct (r # rs) =
     (case merge_request h byProduct r of
        Inl e \<Rightarrow> Inl e
      | Inr byProduct' \<Rightarrow> group_requests h byProduct' rs)"

text \<open>Lines 146-182, one iteration per key of \<^verbatim>\<open>byProduct\<close>.\<close>

definition post_batch :: "(heap \<Rightarrow> addr \<Rightarrow> jsval) \<Rightarrow> batch \<Rightarrow> world \<Rightarrow> world" where
  "post_batch getApplicationUsername b s =
     (let p = batch_product b;
          h = ensure_applicationUsername getApplicationUsername (mem s) p
      in s\<lparr>mem := h,
           calls := calls s @ [\<lparr>url = validator s, http_method = ''POST'', data = p,
                                 body = snapshot h p, waiting = callbacks b\<rparr>]\<rparr>)"

fun dispatch :: "(heap \<Rightarrow> addr \<Rightarrow> jsval) \<Rightarrow> (string \<times> batch) list \<Rightarrow> world \<Rightarrow> world" where
  "dispatch getApplicationUsername [] s = s"
| "dispatch getApplicationUsername ((productId, b) # rest) s =
     dispatch getApplicationUsername rest (post_batch getApplicationUsername b s)"

text \<open>
  Lines 128-182: what \<^verbatim>\<open>runValidation\<close> does with the requests it has captured. The
  result carries the exception, if one was thrown, together with the world as the
  statements before the throw left it.
\<close>

definition dispatchAll ::
  "(heap \<Rightarrow> addr \<Rightarrow> jsval) \<Rightarrow> request list \<Rightarrow> world \<Rightarrow> world \<times> js_error option" where
  "dispatchAll getApplicationUsername requests s =
     (case group_requests (mem s) [] requests of
        Inl e \<Rightarrow> (s, Some e)
      | Inr byProduct \<Rightarrow>
          (dispatch getApplicationUsername (object_entries byProduct) s, None))"

text \<open>Lines 121-183.\<close>

definition runValidation :: "(heap \<Rightarrow> addr \<Rightarrow> jsval) \<Rightarrow> world \<Rightarrow> world \<times> js_error option" where
  "runValidation getApplicationUsername s =
     (let s1 = s\<lparr>timeout := None\<rparr>;
          requests = validationRequests s1;
          s2 = s1\<lparr>validationRequests := []\<rparr>
      in dispatchAll getApplicationUsername requests s2)"

text \<open>
  The platform runs \<^verbatim>\<open>runValidation\<close> for a pending timer once its time has come, and
  the timer is then no longer pending.
\<close>

definition fire :: "(heap \<Rightarrow> addr \<Rightarrow> jsval) \<Rightarrow> world \<Rightarrow> (world \<times> js_error option) option" where
  "fire getApplicationUsername s =
     (case List.find (\<lambda>(h, due). due \<le> now s) (timers s) of
        None \<Rightarrow> None
      | Some t \<Rightarrow> Some (runValidation getApplicationUsername
                          (s\<lparr>timers := removeAll t (timers s)\<rparr>)))"

subsection \<open>The response handlers\<close>

text \<open>
  Lines 167-172. The arguments \<^verbatim>\<open>data && data.ok\<close> and \<^verbatim>\<open>data.data\<close> are evaluated
  for each callback before it is called; an exception ends the loop.
\<close>

definition success_args :: "jsval \<Rightarrow> js_error + (jsval \<times> jsval)" where
  "success_args d =
     (case (if truthy d then get_prop d ''ok'' else Inr d) of
        Inl e \<Rightarrow> Inl e
      | Inr a1 \<Rightarrow> (case get_prop d ''data'' of
                     Inl e \<Rightarrow> Inl e
                   | Inr a2 \<Rightarrow> Inr (a1, a2)))"

fun success :: "callback list \<Rightarrow> jsval \<Rightarrow> event list \<times> js_error option" where
  "success [] d = ([], None)"
| "success (cb # cbs) d =
     (case success_args d of
        Inl e \<Rightarrow> ([], Some e)
      | Inr (a1, a2) \<Rightarrow>
          (let (evs, r) = success cbs d in (Invoke cb (Val a1) (Val a2) # evs, r)))"

text \<open>Lines 173-180.\<close>

definition fullMessage :: "int \<Rightarrow> string \<Rightarrow> string" where
  "fullMessage status message = ''Error '' @ show_int status @ '': '' @ message"

fun error :: "callback list \<Rightarrow> int \<Rightarrow> string \<Rightarrow> event list" where
  "error [] status message = []"
| "error (cb # cbs) status message =
     Invoke cb (Val (Bool False)) (Val (Str (fullMessage status message)))
     # error cbs status message"

subsection \<open>Runs of the module\<close>

text \<open>
  What can happen to the module, one event at a time: a call of the entry point, a change
  of \<^verbatim>\<open>store.validator\<close>, time passing, the platform firing a timer that is due
  (nothing happens if none is), and the transport calling the \<^verbatim>\<open>success\<close> or the
  \<^verbatim>\<open>error\<close> closure of a call that was made.
\<close>

datatype action =
    Validate addr callback jsval
  | Configure validator
  | Elapse nat
  | Fire
  | Succeed nat jsval
  | Fail nat int string

fun step ::
  "(heap \<Rightarrow> addr \<Rightarrow> jsval) \<Rightarrow> (addr \<Rightarrow> world \<Rightarrow> world) option \<Rightarrow> world \<Rightarrow> action
     \<Rightarrow> world" where
  "step g prep s (Validate p cb isPrepared) = store_validator prep p cb isPrepared s"
| "step g prep s (Configure v) = s\<lparr>validator := v\<rparr>"
| "step g prep s (Elapse d) = advance d s"
| "step g prep s Fire = (case fire g s of None \<Rightarrow> s | Some (s', e) \<Rightarrow> s')"
| "step g prep s (Succeed i d) =
     (if i < length (calls s)
      then s\<lparr>trace := trace s @ fst (success (waiting (calls s ! i)) d)\<rparr> else s)"
| "step g prep s (Fail i status message) =
     (if i < length (calls s)
      then s\<lparr>trace := trace s @ error (waiting (calls s ! i)) status message\<rparr> else s)"

definition run ::
  "(heap \<Rightarrow> addr \<Rightarrow> jsval) \<Rightarrow> (addr \<Rightarrow> world \<Rightarrow> world) option \<Rightarrow> world \<Rightarrow> action list
     \<Rightarrow> world" where
  "run g prep s acts = foldl (step g prep) s acts"

subsection \<open>What the properties speak of\<close>

text \<open>How often the pre-step was called, read off the trace.\<close>

fun prepare_count :: "event list \<Rightarrow> nat" where
  "prepare_count [] = 0"
| "prepare_count (Prepare p # evs) = Suc (prepare_count evs)"
| "prepare_count (e # evs) = prepare_count evs"

text \<open>
  At most one timer of this module is pending, and \<^verbatim>\<open>timeout\<close> holds its handle: the
  state \<^verbatim>\<open>scheduleValidation\<close> and \<^verbatim>\<open>runValidation\<close> keep between them.
\<close>

definition timer_inv :: "world \<Rightarrow> bool" where
  "timer_inv s =
     (case timeout s of
        None \<Rightarrow> timers s = []
      | Some h \<Rightarrow> h \<noteq> 0 \<and> map fst (timers s) = [h])"

text \<open>
  A request body that has an \<open>additionalData\<close> mapping whose \<open>applicationUsername\<close> is
  absent or truthy.
\<close>

definition username_ok :: "payload \<Rightarrow> bool" where
  "username_ok b =
     (case payload_additionalData b of
        None \<Rightarrow> False
      | Some ad \<Rightarrow> (case map_of ad ''applicationUsername'' of
                     None \<Rightarrow> True
                   | Some v \<Rightarrow> truthy v))"

text \<open>
  A heap in which every \<open>additionalData\<close> reference points to an allocated object, as every
  heap a JavaScript program can build does.
\<close>

definition heap_ok :: "heap \<Rightarrow> bool" where
  "heap_ok h = (\<forall>q a. additionalData (products h q) = Some a \<longrightarrow> a < next_object h)"

text \<open>Line 131: \<^verbatim>\<open>request.product.id\<close>, read when the request is grouped.\<close>

definition request_id :: "heap \<Rightarrow> request \<Rightarrow> string" where
  "request_id h r = product_id (products h (product r))"

text \<open>
  The batch as the spec words it, for the product id \<open>k\<close> and the captured requests
  \<open>rs\<close>: the product of the most recently queued request for \<open>k\<close>, and the callbacks of
  all the requests for \<open>k\<close>, in queue order.
\<close>

definition spec_batch :: "heap \<Rightarrow> request list \<Rightarrow> string \<Rightarrow> batch" where
  "spec_batch h rs k =
     \<lparr>batch_product = product (last (filter (\<lambda>r. request_id h r = k) rs)),
      callbacks = map callback (filter (\<lambda>r. request_id h r = k) rs)\<rparr>"

subsection \<open>Sample data\<close>

text \<open>
  A heap with a few products (two of them with the same id, one whose id is the name of
  an inherited property, one whose id is an array index); a world with a URL validator
  and nothing pending; the same world 700 ms after a first request was enqueued at time
  0; a username resolver that knows one product; and a pre-step with no effect of its own.
\<close>

definition blank_product :: product where
  "blank_product = \<lparr>product_id = [], additionalData = None, other_fields = []\<rparr>"

definition sample_heap :: heap where
  "sample_heap =
     \<lparr>products = (\<lambda>p. blank_product)
        (1 := \<lparr>product_id = ''a'', additionalData = None, other_fields = []\<rparr>,
         2 := \<lparr>product_id = ''a'', additionalData = Some 0,
                other_fields = [(''price'', Str ''$1'')]\<rparr>,
         3 := \<lparr>product_id = ''b'', additionalData = None, other_fields = []\<rparr>,
         4 := \<lparr>product_id = ''constructor'', additionalData = None, other_fields = []\<rparr>,
         5 := \<lparr>product_id = ''7'', additionalData = None, other_fields = []\<rparr>),
      objects = (\<lambda>a. [])(0 := [(''applicationUsername'', Str [])]),
      next_object = 1\<rparr>"

definition idle_world :: world where
  "idle_world =
     \<lparr>validator = Url ''https://validator.fovea.cc'', validationRequests = [],
      timeout = None, mem = sample_heap, now = 0, timers = [], timers_created = 0,
      calls = [], trace = []\<rparr>"

definition pending_world :: world where
  "pending_world =
     idle_world\<lparr>validationRequests := [\<lparr>product = 1, callback = 10\<rparr>],
                timeout := Some 1, timers := [(1, 1500)], timers_created := 1, now := 700\<rparr>"

definition username_of :: "heap \<Rightarrow> addr \<Rightarrow> jsval" where
  "username_of h p = (if product_id (products h p) = ''b'' then Str ''bob'' else Undefined)"

definition idle_prepare :: "addr \<Rightarrow> world \<Rightarrow> world" where
  "idle_prepare p s = s"

text \<open>
  A world whose timer is due, with a request for product \<open>a\<close> and a request for the
  product named \<open>constructor\<close> in the queue.
\<close>

definition inherited_world :: world where
  "inherited_world =
     idle_world\<lparr>validationRequests := [\<lparr>product = 1, callback = 10\<rparr>,
                                        \<lparr>product = 4, callback = 11\<rparr>],
                timeout := Some 1, timers := [(1, 1500)], timers_created := 1, now := 1500\<rparr>"

section \<open>Properties\<close>

subsection \<open>The entry point\<close>

lemma prepare_count_append:
  "prepare_count (xs @ ys) = prepare_count xs + prepare_count ys"
  by (induction xs rule: prepare_count.induct) simp_all

lemma store_validator_bypass:
  "\<not> validator_truthy (validator s) \<Longrightarrow>
   store_validator prep p cb isPrepared s =
     s\<lparr>trace := trace s @ [Invoke cb (Val (Bool True)) (ProductRef p)]\<rparr>"
  by (subst store_validator.simps) simp

lemma store_validator_prepared:
  "store_validator prep p cb (Bool True) s = store_validator None p cb (Bool True) s"
  by (simp add: store_validator.simps [of prep] store_validator.simps [of None])

lemma store_validator_prepare:
  "validator_truthy (validator s) \<Longrightarrow> isPrepared \<noteq> Bool True \<Longrightarrow>
   store_validator (Some f) p cb isPrepared s =
     store_validator (Some f) p cb (Bool True) (f p (s\<lparr>trace := trace s @ [Prepare p]\<rparr>))"
  by (subst store_validator.simps) simp

lemma trace_scheduleValidation: "trace (scheduleValidation s) = trace s"
  by (simp add: scheduleValidation_def setTimeout_def clearTimeout_def Let_def
      split: option.splits)

lemma trace_enqueue: "trace (enqueue r s) = trace s"
  by (simp add: enqueue_def trace_scheduleValidation)

lemma store_validator_None_prepare_count:
  "prepare_count (trace (store_validator None p cb isPrepared s)) = prepare_count (trace s)"
  by (subst store_validator.simps)
     (simp add: prepare_count_append trace_enqueue split: validator.splits)

lemma prepare_count_store_validator:
  assumes "\<forall>q s'. prepare_count (trace (f q s')) = prepare_count (trace s')"
  shows "prepare_count (trace (store_validator (Some f) p cb isPrepared s)) =
           prepare_count (trace s)
           + (if validator_truthy (validator s) \<and> isPrepared \<noteq> Bool True then 1 else 0)"
proof (cases "validator_truthy (validator s) \<and> isPrepared \<noteq> Bool True")
  case True
  then have "store_validator (Some f) p cb isPrepared s =
      store_validator None p cb (Bool True) (f p (s\<lparr>trace := trace s @ [Prepare p]\<rparr>))"
    by (simp add: store_validator_prepare store_validator_prepared [of "Some f"])
  then show ?thesis
    using True assms
    by (simp add: store_validator_None_prepare_count prepare_count_append)
next
  case False
  show ?thesis
  proof (cases "validator_truthy (validator s)")
    case True
    with False have "isPrepared = Bool True" by simp
    then show ?thesis
      using False
      by (simp add: store_validator_prepared [of "Some f"] store_validator_None_prepare_count)
  next
    case False
    then show ?thesis
      by (simp add: store_validator_bypass prepare_count_append)
  qed
qed

text \<open>
  C5. With no validator configured (or an empty URL, which is falsy as well),
  \<^verbatim>\<open>store._validator\<close> calls \<^verbatim>\<open>callback(true, product)\<close> and changes nothing else: no
  call is made, the queue and the timers are as before.
\<close>

theorem bypass_without_validator:
  assumes "\<not> validator_truthy (validator s)"
  shows "store_validator prep p cb isPrepared s =
           s\<lparr>trace := trace s @ [Invoke cb (Val (Bool True)) (ProductRef p)]\<rparr>
         \<and> calls (store_validator prep p cb isPrepared s) = calls s
         \<and> validationRequests (store_validator prep p cb isPrepared s) = validationRequests s
         \<and> timers (store_validator prep p cb isPrepared s) = timers s
         \<and> timeout (store_validator prep p cb isPrepared s) = timeout s"
  using assms by (simp add: store_validator_bypass)

theorem bypass_without_validator_witness:
  "\<not> validator_truthy (validator (idle_world\<lparr>validator := Unset\<rparr>))
   \<and> trace (store_validator (Some idle_prepare) 1 7 Undefined (idle_world\<lparr>validator := Unset\<rparr>))
       = [Invoke 7 (Val (Bool True)) (ProductRef 1)]
   \<and> calls (store_validator (Some idle_prepare) 1 7 Undefined (idle_world\<lparr>validator := Unset\<rparr>))
       = []"
  using bypass_without_validator
    [of "idle_world\<lparr>validator := Unset\<rparr>" "Some idle_prepare" 1 7 Undefined]
  by (simp add: idle_world_def)

lemma store_validator_prepared_body:
  "store_validator prep p cb (Bool True) s =
     (if \<not> validator_truthy (validator s)
      then s\<lparr>trace := trace s @ [Invoke cb (Val (Bool True)) (ProductRef p)]\<rparr>
      else case validator s of
             Url u \<Rightarrow> enqueue \<lparr>product = p, callback = cb\<rparr> s
           | Custom c \<Rightarrow> s\<lparr>trace := trace s @ [CallValidator c p cb]\<rparr>
           | Unset \<Rightarrow> s)"
  by (subst store_validator.simps) simp

text \<open>
  C8. With a validator configured, a pre-step configured and \<open>isPrepared\<close> not true, the
  pre-step is called, once, and when it is done the entry point is run once more, with
  \<open>isPrepared = true\<close>. A call with \<open>isPrepared = true\<close> makes no further call of the
  entry point, whatever is configured: it takes the bypass, enqueues or calls the custom
  validator, so the chain is at most two calls deep. Counted on the trace, for a pre-step
  that does not start a call chain of its own, a call of the entry point in any world
  adds one call of the pre-step in the case above and none otherwise.
\<close>

theorem prepare_at_most_once:
  assumes "validator_truthy (validator s)" and "isPrepared \<noteq> Bool True"
  shows "store_validator (Some f) p cb isPrepared s =
           store_validator (Some f) p cb (Bool True) (f p (s\<lparr>trace := trace s @ [Prepare p]\<rparr>))
   \<and> store_validator prep p cb (Bool True) s' =
       (if \<not> validator_truthy (validator s')
        then s'\<lparr>trace := trace s' @ [Invoke cb (Val (Bool True)) (ProductRef p)]\<rparr>
        else case validator s' of
               Url u \<Rightarrow> enqueue \<lparr>product = p, callback = cb\<rparr> s'
             | Custom c \<Rightarrow> s'\<lparr>trace := trace s' @ [CallValidator c p cb]\<rparr>
             | Unset \<Rightarrow> s')
   \<and> prepare_count (trace (store_validator prep p cb (Bool True) s')) = prepare_count (trace s')
   \<and> prepare_count (trace (store_validator None p cb x s')) = prepare_count (trace s')
   \<and> ((\<forall>q w. prepare_count (trace (f q w)) = prepare_count (trace w)) \<longrightarrow>
        prepare_count (trace (store_validator (Some f) p cb x s')) =
          prepare_count (trace s')
          + (if validator_truthy (validator s') \<and> x \<noteq> Bool True then 1 else 0))"
proof -
  have "prepare_count (trace (store_validator prep p cb (Bool True) s'))
          = prepare_count (trace s')"
    by (simp add: store_validator_prepared [of prep] store_validator_None_prepare_count)
  then show ?thesis
    using store_validator_prepare [OF assms, of f p cb]
      store_validator_prepared_body [of prep p cb s']
      store_validator_None_prepare_count [of p cb x s']
      prepare_count_store_validator [of f p cb x s']
    by simp
qed

theorem prepare_at_most_once_witness:
  "validator_truthy (validator idle_world) \<and> Undefined \<noteq> Bool True
   \<and> (\<forall>q w. prepare_count (trace (idle_prepare q w)) = prepare_count (trace w))
   \<and> trace (store_validator (Some idle_prepare) 1 7 Undefined idle_world) = [Prepare 1]
   \<and> validationRequests (store_validator (Some idle_prepare) 1 7 Undefined idle_world)
       = [\<lparr>product = 1, callback = 7\<rparr>]
   \<and> prepare_count (trace (store_validator (Some idle_prepare) 1 7 Undefined idle_world)) = 1"
proof -
  have cfg: "validator_truthy (validator idle_world)" "trace idle_world = []"
    by (simp_all add: idle_world_def)
  have u: "Undefined \<noteq> Bool True" by simp
  note inst = prepare_at_most_once [OF cfg(1) u, of idle_prepare 1 7 "Some idle_prepare"
      "idle_prepare 1 (idle_world\<lparr>trace := trace idle_world @ [Prepare 1]\<rparr>)" Undefined]
  note inst0 = prepare_at_most_once [OF cfg(1) u, of idle_prepare 1 7 "Some idle_prepare"
      idle_world Undefined]
  have idle: "\<forall>q w. prepare_count (trace (idle_prepare q w)) = prepare_count (trace w)"
    by (simp add: idle_prepare_def)
  have "store_validator (Some idle_prepare) 1 7 Undefined idle_world
        = store_validator (Some idle_prepare) 1 7 (Bool True)
            (idle_prepare 1 (idle_world\<lparr>trace := trace idle_world @ [Prepare 1]\<rparr>))"
    by (rule inst [THEN conjunct1])
  also note inst [THEN conjunct2, THEN conjunct1]
  finally have run: "trace (store_validator (Some idle_prepare) 1 7 Undefined idle_world)
        = [Prepare 1]"
    "validationRequests (store_validator (Some idle_prepare) 1 7 Undefined idle_world)
        = [\<lparr>product = 1, callback = 7\<rparr>]"
    by (simp_all add: idle_prepare_def idle_world_def enqueue_def scheduleValidation_def
        setTimeout_def)
  have "prepare_count (trace (store_validator (Some idle_prepare) 1 7 Undefined idle_world)) = 1"
    using inst0 [THEN conjunct2, THEN conjunct2, THEN conjunct2, THEN conjunct2] cfg idle
    by simp
  with cfg idle run show ?thesis
    by simp
qed

subsection \<open>The response handlers\<close>

lemma error_map:
  "error cbs status message =
     map (\<lambda>cb. Invoke cb (Val (Bool False)) (Val (Str (fullMessage status message)))) cbs"
  by (induction cbs) simp_all

text \<open>\<open>show_nat\<close> prints the decimal digits: reading them back gives the number.\<close>

lemma digit_value_nth: "d < 10 \<Longrightarrow> digit_value (digit_chars ! d) = d"
proof -
  have "list_all (\<lambda>d. digit_value (digit_chars ! d) = d) [0..<10]"
    by (simp add: upt_rec digit_value_def digit_chars_def)
  then have "\<forall>d \<in> set [0..<10]. digit_value (digit_chars ! d) = d"
    by (simp only: list_all_iff)
  then show "d < 10 \<Longrightarrow> digit_value (digit_chars ! d) = d"
    by simp
qed

lemma dec_value_snoc: "dec_value (ds @ [c]) = 10 * dec_value ds + digit_value c"
  by (simp add: dec_value_def)

lemma dec_value_show_nat: "dec_value (show_nat n) = n"
proof (induction n rule: show_nat.induct)
  case (1 n)
  show ?case
  proof (cases "n < 10")
    case True
    then show ?thesis
      by (subst show_nat.simps) (simp add: dec_value_def digit_value_nth)
  next
    case False
    with "1.IH" have "dec_value (show_nat (n div 10)) = n div 10"
      by simp
    then show ?thesis
      using False
      by (subst show_nat.simps) (simp add: dec_value_snoc digit_value_nth)
  qed
qed

lemma waiting_post_batch:
  "waiting (last (calls (post_batch g b s))) = callbacks b"
  by (simp add: post_batch_def Let_def)

text \<open>
  C7. The \<^verbatim>\<open>error\<close> closure of a batch calls every callback of the batch, in order, with
  \<open>false\<close> and the string made of \<open>Error\<close>, the status, a colon and the message; the
  callbacks it iterates over are those of the batch the call was made for.
\<close>

theorem transport_failure_message:
  "error cbs status message =
     map (\<lambda>cb. Invoke cb (Val (Bool False))
                 (Val (Str (''Error '' @ show_int status @ '': '' @ message)))) cbs
   \<and> error (waiting (last (calls (post_batch g b s)))) status message =
       map (\<lambda>cb. Invoke cb (Val (Bool False))
                   (Val (Str (''Error '' @ show_int status @ '': '' @ message)))) (callbacks b)
   \<and> error [cb] 500 ''Internal Error'' =
       [Invoke cb (Val (Bool False)) (Val (Str ''Error 500: Internal Error''))]"
proof -
  have "show_int 500 = ''500''"
    by (simp add: show_int_def show_nat.simps digit_chars_def)
  then show ?thesis
    by (simp add: error_map waiting_post_batch fullMessage_def)
qed

lemma success_args_Obj:
  "success_args (Obj ps) = Inr (own_prop ps ''ok'', own_prop ps ''data'')"
  by (simp add: success_args_def)

lemma success_map:
  "success_args d = Inr (a1, a2) \<Longrightarrow>
   success cbs d = (map (\<lambda>cb. Invoke cb (Val a1) (Val a2)) cbs, None)"
  by (induction cbs) simp_all

lemma success_args_defined:
  "d \<noteq> Undefined \<Longrightarrow> d \<noteq> Null \<Longrightarrow> \<exists>a1 a2. success_args d = Inr (a1, a2)"
  by (cases d) (simp_all add: success_args_def)

lemma success_Obj:
  "success cbs (Obj ps) =
     (map (\<lambda>cb. Invoke cb (Val (own_prop ps ''ok'')) (Val (own_prop ps ''data''))) cbs, None)"
  by (simp add: success_map success_args_Obj)

lemma missing_ok_falsy: "map_of ps ''ok'' = None \<Longrightarrow> \<not> truthy (own_prop ps ''ok'')"
  by (simp add: own_prop_def)

text \<open>
  C9 fails for the response body \<open>null\<close> (a 200 response whose text is \<^verbatim>\<open>null\<close>), and
  for \<open>undefined\<close>: the first argument is guarded by \<^verbatim>\<open>data &&\<close>, the second,
  \<^verbatim>\<open>data.data\<close>, is not, and throws before any callback is called.
\<close>

theorem success_null_body_throws:
  "success (cb # cbs) Null = ([], Some TypeError)
   \<and> success (cb # cbs) Undefined = ([], Some TypeError)
   \<and> success [10, 12] Null = ([], Some TypeError)"
  by (simp add: success_args_def)

subsection \<open>The debounce timer\<close>

lemma timers_scheduleValidation:
  assumes "timer_inv s"
  shows "timers (scheduleValidation s) = [(Suc (timers_created s), now s + 1500)]"
proof (cases "timeout s")
  case None
  with assms show ?thesis
    by (simp add: timer_inv_def scheduleValidation_def setTimeout_def)
next
  case (Some h)
  with assms have "h \<noteq> 0" and "map fst (timers s) = [h]"
    by (simp_all add: timer_inv_def)
  then obtain due where "timers s = [(h, due)]"
    by (cases "timers s") auto
  with Some \<open>h \<noteq> 0\<close> show ?thesis
    by (simp add: scheduleValidation_def setTimeout_def clearTimeout_def)
qed

lemma scheduleValidation_fields:
  "timeout (scheduleValidation s) = Some (Suc (timers_created s))"
  "timers_created (scheduleValidation s) = Suc (timers_created s)"
  "validationRequests (scheduleValidation s) = validationRequests s"
  "calls (scheduleValidation s) = calls s"
  "now (scheduleValidation s) = now s"
  "mem (scheduleValidation s) = mem s"
  "validator (scheduleValidation s) = validator s"
  by (simp_all add: scheduleValidation_def setTimeout_def clearTimeout_def Let_def
      split: option.splits)

lemma new_timer_scheduleValidation:
  "(Suc (timers_created s), now s + 1500) \<in> set (timers (scheduleValidation s))"
  by (simp add: scheduleValidation_def setTimeout_def clearTimeout_def Let_def
      split: option.splits)

lemma enqueue_fields:
  "validationRequests (enqueue r s) = validationRequests s @ [r]"
  "timeout (enqueue r s) = Some (Suc (timers_created s))"
  "timers_created (enqueue r s) = Suc (timers_created s)"
  "calls (enqueue r s) = calls s"
  "now (enqueue r s) = now s"
  "mem (enqueue r s) = mem s"
  "validator (enqueue r s) = validator s"
  by (simp_all add: enqueue_def scheduleValidation_fields)

lemma timer_inv_queue: "timer_inv (s\<lparr>validationRequests := q\<rparr>) = timer_inv s"
  by (simp add: timer_inv_def split: option.splits)

lemma timers_enqueue:
  "timer_inv s \<Longrightarrow> timers (enqueue r s) = [(Suc (timers_created s), now s + 1500)]"
  by (simp add: enqueue_def timers_scheduleValidation timer_inv_queue)

lemma new_timer_enqueue:
  "(Suc (timers_created s), now s + 1500) \<in> set (timers (enqueue r s))"
  using new_timer_scheduleValidation [of "s\<lparr>validationRequests := validationRequests s @ [r]\<rparr>"]
  by (simp add: enqueue_def)

lemma timer_inv_enqueue: "timer_inv s \<Longrightarrow> timer_inv (enqueue r s)"
  by (simp add: timer_inv_def [of "enqueue r s"] enqueue_fields timers_enqueue)

lemma timer_inv_advance: "timer_inv (advance d s) = timer_inv s"
  by (simp add: timer_inv_def advance_def split: option.splits)

lemma fire_disabled:
  "(fire g s = None) = (\<forall>t \<in> set (timers s). now s < snd t)"
proof -
  have "(fire g s = None) = (List.find (\<lambda>(h, due). due \<le> now s) (timers s) = None)"
    by (simp add: fire_def split: option.splits)
  also have "\<dots> = (\<forall>t \<in> set (timers s). now s < snd t)"
    by (force simp: find_None_iff not_le)
  finally show ?thesis .
qed

lemma fire_after_enqueue:
  assumes "timer_inv s"
  shows "(fire g (advance d (enqueue r s)) = None) = (d < 1500)"
  unfolding fire_disabled using assms
  by (simp add: advance_def timers_enqueue enqueue_fields)

lemma store_validator_enqueue:
  "validator s = Url u \<Longrightarrow> u \<noteq> [] \<Longrightarrow>
   store_validator prep p cb (Bool True) s = enqueue \<lparr>product = p, callback = cb\<rparr> s"
  by (subst store_validator.simps) simp

subsection \<open>Firing\<close>

lemma post_batch_fields:
  "validationRequests (post_batch g b s) = validationRequests s"
  "timeout (post_batch g b s) = timeout s"
  "timers (post_batch g b s) = timers s"
  "timers_created (post_batch g b s) = timers_created s"
  "now (post_batch g b s) = now s"
  "trace (post_batch g b s) = trace s"
  "validator (post_batch g b s) = validator s"
  by (simp_all add: post_batch_def Let_def)

lemma dispatch_fields:
  "validationRequests (dispatch g bs s) = validationRequests s
   \<and> timeout (dispatch g bs s) = timeout s
   \<and> timers (dispatch g bs s) = timers s
   \<and> timers_created (dispatch g bs s) = timers_created s
   \<and> now (dispatch g bs s) = now s
   \<and> trace (dispatch g bs s) = trace s
   \<and> validator (dispatch g bs s) = validator s"
  by (induction g bs s rule: dispatch.induct) (simp_all add: post_batch_fields)

lemma dispatchAll_fields:
  "validationRequests (fst (dispatchAll g rs s)) = validationRequests s"
  "timeout (fst (dispatchAll g rs s)) = timeout s"
  "timers (fst (dispatchAll g rs s)) = timers s"
  "timers_created (fst (dispatchAll g rs s)) = timers_created s"
  "now (fst (dispatchAll g rs s)) = now s"
  "trace (fst (dispatchAll g rs s)) = trace s"
  "validator (fst (dispatchAll g rs s)) = validator s"
  by (simp_all add: dispatchAll_def dispatch_fields split: sum.splits)

lemma dispatchAll_throws:
  "snd (dispatchAll g rs s) = Some e \<Longrightarrow> fst (dispatchAll g rs s) = s"
  by (simp add: dispatchAll_def split: sum.splits)

lemma dispatchAll_Nil: "dispatchAll g [] s = (s, None)"
  by (simp add: dispatchAll_def object_entries_def)

lemma runValidation_unfold:
  "runValidation g s =
     dispatchAll g (validationRequests s) (s\<lparr>timeout := None, validationRequests := []\<rparr>)"
  by (simp add: runValidation_def)

lemma runValidation_fields:
  "validationRequests (fst (runValidation g s)) = []"
  "timeout (fst (runValidation g s)) = None"
  "timers (fst (runValidation g s)) = timers s"
  "timers_created (fst (runValidation g s)) = timers_created s"
  "now (fst (runValidation g s)) = now s"
  "trace (fst (runValidation g s)) = trace s"
  "validator (fst (runValidation g s)) = validator s"
  by (simp_all add: runValidation_unfold dispatchAll_fields)

lemma runValidation_again:
  "runValidation g (fst (runValidation g s)) = (fst (runValidation g s), None)"
proof -
  let ?s' = "fst (runValidation g s)"
  have "?s'\<lparr>timeout := timeout ?s', validationRequests := validationRequests ?s'\<rparr> = ?s'"
    by simp
  then have "?s'\<lparr>timeout := None, validationRequests := []\<rparr> = ?s'"
    by (simp only: runValidation_fields)
  then show ?thesis
    by (simp add: runValidation_unfold [of g ?s'] runValidation_fields dispatchAll_Nil)
qed

lemma fire_Some:
  assumes "timer_inv s" and "fire g s = Some (s', e)"
  shows "(s', e) = runValidation g (s\<lparr>timers := []\<rparr>)"
proof -
  from assms(2) obtain t where t: "List.find (\<lambda>(h, due). due \<le> now s) (timers s) = Some t"
    and r: "(s', e) = runValidation g (s\<lparr>timers := removeAll t (timers s)\<rparr>)"
    by (auto simp: fire_def split: option.splits)
  from t have mem: "t \<in> set (timers s)"
    by (metis find_Some_iff nth_mem)
  then have "timers s \<noteq> []" by auto
  with assms(1) obtain h where "map fst (timers s) = [h]"
    by (auto simp: timer_inv_def split: option.splits)
  then obtain t' where "timers s = [t']"
    by (cases "timers s") auto
  with mem have "removeAll t (timers s) = []" by simp
  with r show ?thesis by simp
qed

subsection \<open>Reachable worlds\<close>

lemma timer_inv_other_fields:
  "timer_inv (s\<lparr>trace := t\<rparr>) = timer_inv s"
  "timer_inv (s\<lparr>validator := v\<rparr>) = timer_inv s"
  by (simp_all add: timer_inv_def split: option.splits)

lemma timer_inv_fire:
  assumes "timer_inv s" and "fire g s = Some (s', e)"
  shows "timer_inv s'"
proof -
  have "s' = fst (runValidation g (s\<lparr>timers := []\<rparr>))"
    using fire_Some [OF assms] by (metis fst_conv)
  then show ?thesis
    by (simp add: timer_inv_def runValidation_fields)
qed

lemma timer_inv_store_validator:
  assumes "timer_inv s"
    and "case prep of None \<Rightarrow> True | Some f \<Rightarrow> \<forall>q s'. timer_inv s' \<longrightarrow> timer_inv (f q s')"
  shows "timer_inv (store_validator prep p cb isPrepared s)"
  using assms
proof (induction prep p cb isPrepared s rule: store_validator.induct)
  case (1 prep p cb isPrepared s)
  show ?case
  proof (cases "validator_truthy (validator s)")
    case False
    then show ?thesis
      using "1.prems"(1) by (simp add: store_validator_bypass timer_inv_other_fields)
  next
    case True
    show ?thesis
    proof (cases "prep \<noteq> None \<and> isPrepared \<noteq> Bool True")
      case True
      then obtain f where f: "prep = Some f" by auto
      with "1.prems" have "timer_inv (f p (s\<lparr>trace := trace s @ [Prepare p]\<rparr>))"
        by (simp add: timer_inv_other_fields)
      with "1.IH" \<open>validator_truthy (validator s)\<close> True "1.prems"(2) f
      have "timer_inv (store_validator prep p cb (Bool True)
                         (f p (s\<lparr>trace := trace s @ [Prepare p]\<rparr>)))"
        by simp
      then show ?thesis
        using \<open>validator_truthy (validator s)\<close> True f
        by (subst store_validator.simps) simp
    next
      case False
      then show ?thesis
        using \<open>validator_truthy (validator s)\<close> "1.prems"(1)
        by (subst store_validator.simps)
           (auto simp: timer_inv_enqueue timer_inv_other_fields split: validator.splits)
    qed
  qed
qed

lemma timer_inv_step:
  assumes "timer_inv s"
    and "case prep of None \<Rightarrow> True | Some f \<Rightarrow> \<forall>q s'. timer_inv s' \<longrightarrow> timer_inv (f q s')"
  shows "timer_inv (step g prep s a)"
proof (cases a)
  case (Validate p cb isPrepared)
  then show ?thesis
    using timer_inv_store_validator [OF assms] by simp
next
  case (Configure v)
  then show ?thesis
    using assms(1) by (simp add: timer_inv_other_fields)
next
  case (Elapse d)
  then show ?thesis
    using assms(1) by (simp add: timer_inv_advance)
next
  case Fire
  then show ?thesis
    using assms(1) timer_inv_fire [of s g]
    by (auto split: option.splits)
next
  case (Succeed i d)
  then show ?thesis
    using assms(1) by (simp add: timer_inv_other_fields)
next
  case (Fail i status message)
  then show ?thesis
    using assms(1) by (simp add: timer_inv_other_fields)
qed

text \<open>
  The handle and the pending timer agree in every world the module reaches from one
  where they do, such as the initial one, with no timer and a null handle.
\<close>

lemma timer_inv_run:
  assumes "timer_inv s"
    and "case prep of None \<Rightarrow> True | Some f \<Rightarrow> \<forall>q s'. timer_inv s' \<longrightarrow> timer_inv (f q s')"
  shows "timer_inv (run g prep s acts)"
  using assms(1) unfolding run_def
proof (induction acts arbitrary: s)
  case Nil
  then show ?case by simp
next
  case (Cons a acts)
  then show ?case
    using timer_inv_step [OF _ assms(2)] by simp
qed

text \<open>
  C3. In a world where the handle and the pending timer agree, an enqueue appends the
  request and leaves exactly one timer pending, the new one, due 1500 ms from now:
  a timer that was pending is gone. After \<open>d\<close> more milliseconds the timer cannot
  fire exactly when \<open>d\<close> is less than 1500, and a second enqueue \<open>d\<close> milliseconds
  after the first moves the due time to 1500 ms after the second. The entry point reaches
  the enqueue when the validator is a non-empty URL. The agreement of handle and timer is
  kept by every call of the entry point, change of validator, lapse of time, firing and
  response.
\<close>

theorem enqueue_restarts_timer:
  assumes "timer_inv s"
  shows "validationRequests (enqueue r s) = validationRequests s @ [r]
         \<and> timeout (enqueue r s) = Some (Suc (timers_created s))
         \<and> timers (enqueue r s) = [(Suc (timers_created s), now s + 1500)]
         \<and> timer_inv (enqueue r s)
         \<and> (fire g (advance d (enqueue r s)) = None) = (d < 1500)
         \<and> timers (enqueue r' (advance d (enqueue r s)))
             = [(Suc (Suc (timers_created s)), now s + d + 1500)]
         \<and> (fire g (advance d' (enqueue r' (advance d (enqueue r s)))) = None) = (d' < 1500)
         \<and> (validator s = Url u \<and> u \<noteq> [] \<longrightarrow>
              store_validator prep p cb (Bool True) s = enqueue \<lparr>product = p, callback = cb\<rparr> s)
         \<and> timer_inv (run g None s acts)"
proof -
  have inv1: "timer_inv (advance d (enqueue r s))"
    using assms by (simp add: timer_inv_advance timer_inv_enqueue)
  have "timers (enqueue r' (advance d (enqueue r s)))
          = [(Suc (Suc (timers_created s)), now s + d + 1500)]"
    using timers_enqueue [OF inv1, of r'] by (simp add: advance_def enqueue_fields)
  moreover have "(fire g (advance d' (enqueue r' (advance d (enqueue r s)))) = None)
                   = (d' < 1500)"
    using inv1 by (rule fire_after_enqueue)
  moreover have "(fire g (advance d (enqueue r s)) = None) = (d < 1500)"
    using assms by (rule fire_after_enqueue)
  ultimately show ?thesis
    using assms
    by (simp add: enqueue_fields timers_enqueue timer_inv_enqueue store_validator_enqueue
        timer_inv_run)
qed

theorem enqueue_restarts_timer_witness:
  "timer_inv pending_world
   \<and> timers pending_world = [(1, 1500)]
   \<and> validationRequests (enqueue \<lparr>product = 2, callback = 12\<rparr> pending_world)
       = [\<lparr>product = 1, callback = 10\<rparr>, \<lparr>product = 2, callback = 12\<rparr>]
   \<and> timers (enqueue \<lparr>product = 2, callback = 12\<rparr> pending_world) = [(2, 2200)]
   \<and> fire username_of (advance 1499 (enqueue \<lparr>product = 2, callback = 12\<rparr> pending_world))
       = None"
proof -
  have inv: "timer_inv pending_world"
    by (simp add: timer_inv_def pending_world_def idle_world_def)
  have vals: "timers_created pending_world = 1" "now pending_world = 700"
    "validationRequests pending_world = [\<lparr>product = 1, callback = 10\<rparr>]"
    "timers pending_world = [(1, 1500)]"
    by (simp_all add: pending_world_def idle_world_def)
  show ?thesis
    using inv vals
      enqueue_restarts_timer [where s = pending_world and r = "\<lparr>product = 2, callback = 12\<rparr>"
        and g = username_of and d = 1499 and r' = "\<lparr>product = 2, callback = 12\<rparr>" and d' = 0
        and u = "[]" and prep = None and p = 0 and cb = 0 and acts = "[]", OF inv]
    by simp
qed

text \<open>
  What \<^verbatim>\<open>runValidation\<close> leaves behind. It does its grouping and dispatching on the
  whole queue as it was, in a world where the handle is null and the queue empty, and
  that is the world it leaves whether or not the dispatch throws, with no timer started.
  Firing again at once finds nothing to do. A request enqueued afterwards is alone in the
  new queue, the calls already made are untouched, and a new timer is started.
\<close>

lemma firing_resets_first:
  "runValidation g s =
     dispatchAll g (validationRequests s) (s\<lparr>timeout := None, validationRequests := []\<rparr>)
   \<and> timeout (fst (runValidation g s)) = None
   \<and> validationRequests (fst (runValidation g s)) = []
   \<and> timers (fst (runValidation g s)) = timers s
   \<and> runValidation g (fst (runValidation g s)) = (fst (runValidation g s), None)
   \<and> validationRequests (enqueue r (fst (runValidation g s))) = [r]
   \<and> calls (enqueue r (fst (runValidation g s))) = calls (fst (runValidation g s))
   \<and> timeout (enqueue r (fst (runValidation g s))) = Some (Suc (timers_created s))"
  by (simp add: runValidation_fields enqueue_fields runValidation_again
      runValidation_unfold [symmetric])

lemma fired_world:
  assumes inv: "timer_inv s" and f: "fire g s = Some (s', e)"
  shows "timeout s' = None \<and> validationRequests s' = [] \<and> timers s' = []
         \<and> timers (enqueue r s') = [(Suc (timers_created s), now s + 1500)]"
proof -
  have s': "s' = fst (runValidation g (s\<lparr>timers := []\<rparr>))"
    using fire_Some [OF inv f] by (metis fst_conv)
  have fields: "timeout s' = None" "validationRequests s' = []" "timers s' = []"
    "timers_created s' = timers_created s" "now s' = now s"
    by (simp_all add: s' runValidation_fields)
  then have "timer_inv s'"
    by (simp add: timer_inv_def)
  then have "timers (enqueue r s') = [(Suc (timers_created s), now s + 1500)]"
    by (simp add: timers_enqueue fields)
  with fields show ?thesis
    by simp
qed

text \<open>
  C4 fails for a queue that holds a request whose product id is the name of an inherited
  property. The timer fires with a request for \<open>a\<close> and one for \<open>constructor\<close> in the
  queue. The handle is reset and the queue emptied, as the claim has it, and then the
  grouping throws: no call is made for \<open>a\<close>, none of the two callbacks is called, and
  the requests are in no queue any more, so that no later firing makes a call for them.
  The request for \<open>a\<close> is lost.
\<close>

theorem firing_loses_captured_requests:
  "validationRequests inherited_world
     = [\<lparr>product = 1, callback = 10\<rparr>, \<lparr>product = 4, callback = 11\<rparr>]
   \<and> map (request_id (mem inherited_world)) (validationRequests inherited_world)
       = [''a'', ''constructor'']
   \<and> fire username_of inherited_world
       = Some (idle_world\<lparr>now := 1500, timers_created := 1\<rparr>, Some TypeError)
   \<and> validationRequests (idle_world\<lparr>now := 1500, timers_created := 1\<rparr>) = []
   \<and> calls (idle_world\<lparr>now := 1500, timers_created := 1\<rparr>) = []
   \<and> trace (idle_world\<lparr>now := 1500, timers_created := 1\<rparr>) = []
   \<and> calls (run username_of None (idle_world\<lparr>now := 1500, timers_created := 1\<rparr>)
              [Elapse 1500, Fire, Elapse 1500, Fire]) = []
   \<and> trace (run username_of None (idle_world\<lparr>now := 1500, timers_created := 1\<rparr>)
              [Elapse 1500, Fire, Elapse 1500, Fire]) = []"
  by (simp add: inherited_world_def idle_world_def sample_heap_def request_id_def fire_def
      runValidation_def dispatchAll_def merge_request_def object_prototype_keys_def
      run_def advance_def)

subsection \<open>The application username\<close>

lemma own_prop_update: "own_prop (AList.update k v ps) k = v"
  by (simp add: own_prop_def update_conv')

lemma ensure_additionalData_ref:
  "ensure_additionalData h p = (h1, a) \<Longrightarrow> additionalData (products h1 p) = Some a"
  by (auto simp: ensure_additionalData_def Let_def split: option.splits)


lemma ensure_additionalData_None:
  "additionalData (products h p) = None \<Longrightarrow>
   ensure_additionalData h p =
     (h\<lparr>products := (products h)(p := (products h p)\<lparr>additionalData := Some (next_object h)\<rparr>),
        objects := (objects h)(next_object h := []),
        next_object := Suc (next_object h)\<rparr>, next_object h)"
  by (simp add: ensure_additionalData_def Let_def)

lemma ensure_applicationUsername_products:
  "ensure_additionalData h p = (h1, a) \<Longrightarrow>
   products (ensure_applicationUsername g h p) = products h1"
  by (simp add: ensure_applicationUsername_def Let_def)

lemma ensure_applicationUsername_next:
  "ensure_additionalData h p = (h1, a) \<Longrightarrow>
   next_object (ensure_applicationUsername g h p) = next_object h1"
  by (simp add: ensure_applicationUsername_def Let_def)


lemma ensure_applicationUsername_object:
  "ensure_additionalData h p = (h1, a) \<Longrightarrow>
   objects (ensure_applicationUsername g h p) a =
     (if truthy (own_prop (objects h1 a) ''applicationUsername'') then objects h1 a
      else if truthy (g h1 p)
        then AList.update ''applicationUsername'' (g h1 p) (objects h1 a)
        else AList.delete ''applicationUsername'' (objects h1 a))"
  by (simp add: ensure_applicationUsername_def Let_def own_prop_update delete_update_same)

lemma product_id_ensure_additionalData:
  "ensure_additionalData h p = (h1, a) \<Longrightarrow>
   product_id (products h1 q) = product_id (products h q)
   \<and> other_fields (products h1 q) = other_fields (products h q)"
  by (auto simp: ensure_additionalData_def Let_def split: option.splits)

lemma product_id_ensure_applicationUsername:
  "product_id (products (ensure_applicationUsername g h p) q) = product_id (products h q)
   \<and> other_fields (products (ensure_applicationUsername g h p) q) = other_fields (products h q)"
proof -
  obtain h1 a where e: "ensure_additionalData h p = (h1, a)"
    by (cases "ensure_additionalData h p")
  show ?thesis
    by (simp add: ensure_applicationUsername_products [OF e]
        product_id_ensure_additionalData [OF e])
qed

lemma snapshot_ensure_applicationUsername:
  assumes "ensure_additionalData h p = (h1, a)"
  shows "payload_additionalData (snapshot (ensure_applicationUsername g h p) p)
           = Some (objects (ensure_applicationUsername g h p) a)"
  by (simp add: snapshot_def ensure_applicationUsername_products [OF assms]
      ensure_additionalData_ref [OF assms])

lemma username_ok_ensure_applicationUsername:
  "username_ok (snapshot (ensure_applicationUsername g h p) p)"
proof -
  obtain h1 a where e: "ensure_additionalData h p = (h1, a)"
    by (cases "ensure_additionalData h p")
  have "case map_of (objects (ensure_applicationUsername g h p) a) ''applicationUsername'' of
          None \<Rightarrow> True | Some v \<Rightarrow> truthy v"
    unfolding ensure_applicationUsername_object [OF e]
    by (simp add: own_prop_def update_conv' delete_conv' split: option.splits)
  then show ?thesis
    by (simp add: username_ok_def snapshot_ensure_applicationUsername [OF e])
qed

lemma calls_post_batch:
  "calls (post_batch g b s) =
     calls s @ [\<lparr>url = validator s, http_method = ''POST'', data = batch_product b,
                 body = snapshot (ensure_applicationUsername g (mem s) (batch_product b))
                          (batch_product b),
                 waiting = callbacks b\<rparr>]"
  by (simp add: post_batch_def Let_def)

lemma mem_post_batch:
  "mem (post_batch g b s) = ensure_applicationUsername g (mem s) (batch_product b)"
  by (simp add: post_batch_def Let_def)

lemma calls_dispatch:
  "\<exists>new. calls (dispatch g bs s) = calls s @ new \<and> length new = length bs
         \<and> list_all (\<lambda>c. http_method c = ''POST'' \<and> username_ok (body c)) new"
proof (induction g bs s rule: dispatch.induct)
  case (1 g s)
  then show ?case by simp
next
  case (2 g productId b rest s)
  then obtain new where new: "calls (dispatch g rest (post_batch g b s))
      = calls (post_batch g b s) @ new" "length new = length rest"
      "list_all (\<lambda>c. http_method c = ''POST'' \<and> username_ok (body c)) new"
    by blast
  let ?c = "\<lparr>url = validator s, http_method = ''POST'', data = batch_product b,
              body = snapshot (ensure_applicationUsername g (mem s) (batch_product b))
                       (batch_product b),
              waiting = callbacks b\<rparr>"
  have "calls (dispatch g ((productId, b) # rest) s) = calls s @ (?c # new)"
    by (simp add: new(1) calls_post_batch)
  moreover have "list_all (\<lambda>c. http_method c = ''POST'' \<and> username_ok (body c)) (?c # new)"
    by (simp add: new(3) username_ok_ensure_applicationUsername)
  moreover have "length (?c # new) = length ((productId, b) # rest)"
    by (simp add: new(2))
  ultimately show ?case by blast
qed

lemma calls_runValidation:
  "\<exists>new. calls (fst (runValidation g s)) = calls s @ new
         \<and> list_all (\<lambda>c. http_method c = ''POST'' \<and> username_ok (body c)) new"
proof (cases "group_requests (mem s) [] (validationRequests s)")
  case (Inl e)
  then have "calls (fst (runValidation g s)) = calls s @ []"
    by (simp add: runValidation_def dispatchAll_def)
  then show ?thesis
    by (intro exI [where x = "[]"]) simp
next
  case (Inr byProduct)
  then have "fst (runValidation g s)
      = dispatch g (object_entries byProduct) (s\<lparr>timeout := None, validationRequests := []\<rparr>)"
    by (simp add: runValidation_def dispatchAll_def)
  then show ?thesis
    using calls_dispatch [of g "object_entries byProduct"
        "s\<lparr>timeout := None, validationRequests := []\<rparr>"]
    by auto
qed

text \<open>
  C6. Let \<open>h1\<close> be the heap once \<open>additionalData\<close> is ensured and \<open>a\<close> the object it
  refers to: a new empty object when \<open>additionalData\<close> was absent. After the
  normalisation the product still refers to \<open>a\<close>; a truthy \<open>applicationUsername\<close> is kept;
  otherwise the key holds the resolver's value when that is truthy, and is absent when
  it is not. The body of the call made for the batch is the product as normalised, so its
  \<open>applicationUsername\<close> is absent or truthy, and this holds for every call that
  \<^verbatim>\<open>runValidation\<close> makes, each of them a POST.
\<close>

theorem applicationUsername_normalized:
  assumes "ensure_additionalData h p = (h1, a)"
    and "h' = ensure_applicationUsername g h p"
  shows "additionalData (products h' p) = Some a
   \<and> (additionalData (products h p) = None \<longrightarrow> objects h1 a = [])
   \<and> (truthy (own_prop (objects h1 a) ''applicationUsername'') \<longrightarrow>
        objects h' a = objects h1 a)
   \<and> (\<not> truthy (own_prop (objects h1 a) ''applicationUsername'') \<and> truthy (g h1 p) \<longrightarrow>
        map_of (objects h' a) ''applicationUsername'' = Some (g h1 p))
   \<and> (\<not> truthy (own_prop (objects h1 a) ''applicationUsername'') \<and> \<not> truthy (g h1 p) \<longrightarrow>
        map_of (objects h' a) ''applicationUsername'' = None)
   \<and> payload_additionalData (snapshot h' p) = Some (objects h' a)
   \<and> username_ok (snapshot h' p)
   \<and> body (last (calls (post_batch g b s)))
       = snapshot (ensure_applicationUsername g (mem s) (batch_product b)) (batch_product b)
   \<and> (\<exists>new. calls (fst (runValidation g s)) = calls s @ new
         \<and> list_all (\<lambda>c. http_method c = ''POST'' \<and> username_ok (body c)) new)"
proof -
  have "additionalData (products h' p) = Some a"
    by (simp add: assms(2) ensure_applicationUsername_products [OF assms(1)]
        ensure_additionalData_ref [OF assms(1)])
  moreover have "objects h1 a = []" if "additionalData (products h p) = None"
    using assms(1) that by (auto simp: ensure_additionalData_None)
  moreover have "objects h' a = objects h1 a"
    if "truthy (own_prop (objects h1 a) ''applicationUsername'')"
    using that by (simp add: assms(2) ensure_applicationUsername_object [OF assms(1)])
  moreover have "map_of (objects h' a) ''applicationUsername'' = Some (g h1 p)"
    if "\<not> truthy (own_prop (objects h1 a) ''applicationUsername'') \<and> truthy (g h1 p)"
    using that
    by (simp add: assms(2) ensure_applicationUsername_object [OF assms(1)] update_conv')
  moreover have "map_of (objects h' a) ''applicationUsername'' = None"
    if "\<not> truthy (own_prop (objects h1 a) ''applicationUsername'') \<and> \<not> truthy (g h1 p)"
    using that
    by (simp add: assms(2) ensure_applicationUsername_object [OF assms(1)] delete_conv')
  moreover have "payload_additionalData (snapshot h' p) = Some (objects h' a)"
    by (simp add: assms(2) snapshot_ensure_applicationUsername [OF assms(1)])
  moreover have "username_ok (snapshot h' p)"
    by (simp add: assms(2) username_ok_ensure_applicationUsername)
  moreover have "body (last (calls (post_batch g b s)))
       = snapshot (ensure_applicationUsername g (mem s) (batch_product b)) (batch_product b)"
    by (simp add: calls_post_batch)
  moreover note calls_runValidation [of g s]
  ultimately show ?thesis
    by blast
qed

theorem applicationUsername_normalized_witness:
  "ensure_additionalData sample_heap 3
     = (sample_heap\<lparr>products := (products sample_heap)
                       (3 := (products sample_heap 3)\<lparr>additionalData := Some 1\<rparr>),
                    objects := (objects sample_heap)(1 := []), next_object := 2\<rparr>, 1)
   \<and> payload_additionalData (snapshot (ensure_applicationUsername username_of sample_heap 3) 3)
       = Some [(''applicationUsername'', Str ''bob'')]
   \<and> payload_additionalData (snapshot (ensure_applicationUsername username_of sample_heap 2) 2)
       = Some []
   \<and> username_ok (snapshot (ensure_applicationUsername username_of sample_heap 2) 2)"
proof -
  let ?h1 = "sample_heap\<lparr>products := (products sample_heap)
                       (3 := (products sample_heap 3)\<lparr>additionalData := Some 1\<rparr>),
                    objects := (objects sample_heap)(1 := []), next_object := 2\<rparr>"
  have e3: "ensure_additionalData sample_heap 3 = (?h1, 1)"
    by (simp add: ensure_additionalData_def sample_heap_def)
  have e2: "ensure_additionalData sample_heap 2 = (sample_heap, 0)"
    by (simp add: ensure_additionalData_def sample_heap_def)
  have g3: "username_of ?h1 3 = Str ''bob''" "objects ?h1 1 = []"
    by (simp_all add: username_of_def sample_heap_def)
  have g2: "username_of sample_heap 2 = Undefined"
    "objects sample_heap 0 = [(''applicationUsername'', Str [])]"
    by (simp_all add: username_of_def sample_heap_def)
  have o3: "objects (ensure_applicationUsername username_of sample_heap 3) 1
              = [(''applicationUsername'', Str ''bob'')]"
    using ensure_applicationUsername_object [OF e3, of username_of] g3
    by (simp add: own_prop_def)
  have o2: "objects (ensure_applicationUsername username_of sample_heap 2) 0 = []"
    using ensure_applicationUsername_object [OF e2, of username_of] g2
    by (simp add: own_prop_def AList.delete_eq)
  show ?thesis
    using e3 o3 o2
      applicationUsername_normalized [OF e3 refl, of username_of
        "\<lparr>batch_product = 3, callbacks = [11]\<rparr>" idle_world]
      applicationUsername_normalized [OF e2 refl, of username_of
        "\<lparr>batch_product = 2, callbacks = [12]\<rparr>" idle_world]
    by simp
qed

subsection \<open>Writes to the caller's product\<close>

lemma object_entries_single: "object_entries [(k, b)] = [(k, b)]"
  by (cases "is_array_index k") (simp_all add: object_entries_def)

lemma group_requests_single:
  "product_id (products h (product r)) \<notin> set object_prototype_keys \<Longrightarrow>
   group_requests h [] [r] =
     Inr [(product_id (products h (product r)),
           \<lparr>batch_product = product r, callbacks = [callback r]\<rparr>)]"
  by (simp add: merge_request_def)

lemma runValidation_single:
  assumes "product_id (products (mem s) (product r)) \<notin> set object_prototype_keys"
  shows "runValidation g (s\<lparr>validationRequests := [r]\<rparr>) =
           (post_batch g \<lparr>batch_product = product r, callbacks = [callback r]\<rparr>
              (s\<lparr>timeout := None, validationRequests := []\<rparr>), None)"
proof -
  have "group_requests (mem s) [] [r] =
          Inr [(product_id (products (mem s) (product r)),
                \<lparr>batch_product = product r, callbacks = [callback r]\<rparr>)]"
    using assms by (rule group_requests_single)
  then show ?thesis
    by (simp add: runValidation_def dispatchAll_def object_entries_single
        del: group_requests.simps)
qed


lemma heap_ok_ensure_applicationUsername:
  assumes "heap_ok h"
  shows "heap_ok (ensure_applicationUsername g h p)"
proof -
  obtain h1 a where e: "ensure_additionalData h p = (h1, a)"
    by (cases "ensure_additionalData h p")
  have "heap_ok h1"
    using assms e
    by (auto simp: heap_ok_def ensure_additionalData_def Let_def less_Suc_eq
        split: option.splits if_splits)
  then show ?thesis
    by (simp add: heap_ok_def ensure_applicationUsername_products [OF e]
        ensure_applicationUsername_next [OF e])
qed

subsection \<open>Grouping: a burst for one product\<close>

lemma merge_request_present:
  "merge_request h [(k, b)] r =
     (if product_id (products h (product r)) = k
      then Inr [(k, \<lparr>batch_product = product r, callbacks = callbacks b @ [callback r]\<rparr>)]
      else if product_id (products h (product r)) \<in> set object_prototype_keys
        then Inl TypeError
        else Inr [(k, b), (product_id (products h (product r)),
                           \<lparr>batch_product = product r, callbacks = [callback r]\<rparr>)])"
  by (simp add: merge_request_def)

lemma group_requests_same_id:
  "\<forall>r \<in> set rs. product_id (products h (product r)) = k \<Longrightarrow>
   group_requests h [(k, b)] rs =
     Inr [(k, \<lparr>batch_product = (if rs = [] then batch_product b else product (last rs)),
               callbacks = callbacks b @ map callback rs\<rparr>)]"
proof (induction rs arbitrary: b)
  case Nil
  then show ?case by simp
next
  case (Cons r rs)
  then show ?case
    by (simp add: merge_request_present)
qed

lemma group_requests_burst:
  assumes "rs \<noteq> []"
    and "\<forall>r \<in> set rs. product_id (products h (product r)) = k"
    and "k \<notin> set object_prototype_keys"
  shows "group_requests h [] rs =
           Inr [(k, \<lparr>batch_product = product (last rs), callbacks = map callback rs\<rparr>)]"
proof -
  from assms(1) obtain r rs' where rs: "rs = r # rs'"
    by (cases rs) auto
  with assms(2) have k: "product_id (products h (product r)) = k"
    and rest: "\<forall>r \<in> set rs'. product_id (products h (product r)) = k"
    by simp_all
  have "merge_request h [] r = Inr [(k, \<lparr>batch_product = product r, callbacks = [callback r]\<rparr>)]"
    using k assms(3) by (simp add: merge_request_def)
  then have "group_requests h [] rs =
      group_requests h [(k, \<lparr>batch_product = product r, callbacks = [callback r]\<rparr>)] rs'"
    by (simp add: rs)
  then show ?thesis
    by (simp add: group_requests_same_id [OF rest] rs)
qed

text \<open>
  A burst of requests whose product ids are all \<open>k\<close>, where \<open>k\<close> is not the name of an
  inherited property: one POST, for the product of the last request, as normalised, with
  the callbacks of all the requests in the order they were queued.
\<close>

lemma burst_one_call:
  assumes "validationRequests s \<noteq> []"
    and "\<forall>r \<in> set (validationRequests s). product_id (products (mem s) (product r)) = k"
    and "k \<notin> set object_prototype_keys"
  shows "snd (runValidation g s) = None
   \<and> calls (fst (runValidation g s)) =
       calls s @ [\<lparr>url = validator s, http_method = ''POST'',
                   data = product (last (validationRequests s)),
                   body = snapshot (ensure_applicationUsername g (mem s)
                                      (product (last (validationRequests s))))
                            (product (last (validationRequests s))),
                   waiting = map callback (validationRequests s)\<rparr>]"
proof -
  have "group_requests (mem s) [] (validationRequests s) =
          Inr [(k, \<lparr>batch_product = product (last (validationRequests s)),
                    callbacks = map callback (validationRequests s)\<rparr>)]"
    using assms by (rule group_requests_burst)
  then show ?thesis
    by (simp add: runValidation_def dispatchAll_def object_entries_single calls_post_batch)
qed

text \<open>
  C1 fails for a burst whose product id is the name of a property that every object
  inherits, such as \<open>constructor\<close>: \<^verbatim>\<open>byProduct[productId]\<close> is then truthy before
  anything was stored, \<^verbatim>\<open>.callbacks\<close> of it is undefined, and the \<^verbatim>\<open>push\<close> throws. No
  call is made and no callback is called; the queue was emptied before.
\<close>

theorem burst_inherited_id_throws:
  "product_id (products (mem idle_world) 4) = ''constructor''
   \<and> runValidation username_of
       (idle_world\<lparr>validationRequests :=
          [\<lparr>product = 4, callback = 10\<rparr>, \<lparr>product = 4, callback = 12\<rparr>]\<rparr>)
     = (idle_world, Some TypeError)
   \<and> calls idle_world = [] \<and> trace idle_world = [] \<and> validationRequests idle_world = []"
  by (simp add: runValidation_def dispatchAll_def merge_request_def idle_world_def
      sample_heap_def object_prototype_keys_def)

subsection \<open>Grouping: several products\<close>

lemma spec_batch_snoc_same:
  "request_id h r = k \<Longrightarrow>
   spec_batch h (rs @ [r]) k =
     \<lparr>batch_product = product r, callbacks = callbacks (spec_batch h rs k) @ [callback r]\<rparr>"
  by (simp add: spec_batch_def)

lemma spec_batch_snoc_other:
  "request_id h r \<noteq> k \<Longrightarrow> spec_batch h (rs @ [r]) k = spec_batch h rs k"
  by (simp add: spec_batch_def)

lemma spec_batch_id:
  assumes "k \<in> request_id h ` set rs"
  shows "product_id (products h (batch_product (spec_batch h rs k))) = k"
proof -
  let ?f = "filter (\<lambda>r. request_id h r = k) rs"
  from assms have "?f \<noteq> []"
    by (auto simp: filter_empty_conv)
  then have "last ?f \<in> set ?f"
    by (rule last_in_set)
  then have "request_id h (last ?f) = k"
    by simp
  then show ?thesis
    by (simp add: spec_batch_def request_id_def)
qed

lemma merge_request_grouped:
  assumes d: "distinct (map fst bp)"
    and m: "\<forall>k. map_of bp k = (if k \<in> request_id h ` set rs0
                                then Some (spec_batch h rs0 k) else None)"
    and ok: "request_id h r \<notin> set object_prototype_keys"
  shows "\<exists>bp'. merge_request h bp r = Inr bp' \<and> distinct (map fst bp')
           \<and> (\<forall>k. map_of bp' k = (if k \<in> request_id h ` set (rs0 @ [r])
                                  then Some (spec_batch h (rs0 @ [r]) k) else None))"
proof (cases "map_of bp (request_id h r)")
  case None
  let ?k = "request_id h r"
  let ?b = "\<lparr>batch_product = product r, callbacks = [callback r]\<rparr>"
  from None m have notin: "?k \<notin> request_id h ` set rs0"
    by (metis option.distinct(1))
  then have "\<forall>r' \<in> set rs0. request_id h r' \<noteq> ?k"
    by (metis imageI)
  then have empty: "filter (\<lambda>r'. request_id h r' = ?k) rs0 = []"
    by (simp add: filter_empty_conv)
  from None have fresh: "?k \<notin> fst ` set bp"
    by (simp add: map_of_eq_None_iff)
  have step: "merge_request h bp r = Inr (bp @ [(?k, ?b)])"
    using None ok by (simp add: merge_request_def request_id_def)
  have dist: "distinct (map fst (bp @ [(?k, ?b)]))"
    using d fresh by simp
  have "map_of (bp @ [(?k, ?b)]) k =
          (if k \<in> request_id h ` set (rs0 @ [r]) then Some (spec_batch h (rs0 @ [r]) k)
           else None)" for k
  proof (cases "k = ?k")
    case True
    then show ?thesis
      using None by (simp add: map_add_def spec_batch_def empty)
  next
    case False
    then have "spec_batch h (rs0 @ [r]) k = spec_batch h rs0 k"
      by (simp add: spec_batch_snoc_other)
    with False show ?thesis
      by (auto simp: map_add_def m split: option.splits)
  qed
  with step dist show ?thesis by blast
next
  case (Some b)
  let ?k = "request_id h r"
  let ?b = "\<lparr>batch_product = product r, callbacks = callbacks b @ [callback r]\<rparr>"
  from Some m have b: "b = spec_batch h rs0 ?k"
    by (metis option.distinct(1) option.inject)
  have step: "merge_request h bp r = Inr (AList.update ?k ?b bp)"
    using Some by (simp add: merge_request_def request_id_def)
  have dist: "distinct (map fst (AList.update ?k ?b bp))"
    using d by (simp add: distinct_update)
  have "map_of (AList.update ?k ?b bp) k =
          (if k \<in> request_id h ` set (rs0 @ [r]) then Some (spec_batch h (rs0 @ [r]) k)
           else None)" for k
  proof (cases "k = ?k")
    case True
    then show ?thesis
      by (simp add: update_conv' b spec_batch_snoc_same)
  next
    case False
    then have "spec_batch h (rs0 @ [r]) k = spec_batch h rs0 k"
      by (simp add: spec_batch_snoc_other)
    with False show ?thesis
      by (auto simp: update_conv' m)
  qed
  with step dist show ?thesis by blast
qed

lemma group_requests_grouped:
  assumes "distinct (map fst bp)"
    and "\<forall>k. map_of bp k = (if k \<in> request_id h ` set rs0
                             then Some (spec_batch h rs0 k) else None)"
    and "\<forall>r \<in> set rs. request_id h r \<notin> set object_prototype_keys"
  shows "\<exists>bp'. group_requests h bp rs = Inr bp' \<and> distinct (map fst bp')
           \<and> (\<forall>k. map_of bp' k = (if k \<in> request_id h ` set (rs0 @ rs)
                                  then Some (spec_batch h (rs0 @ rs) k) else None))"
  using assms
proof (induction rs arbitrary: bp rs0)
  case Nil
  then show ?case by simp
next
  case (Cons r rs)
  from Cons.prems(3) have ok: "request_id h r \<notin> set object_prototype_keys"
    and rest: "\<forall>r \<in> set rs. request_id h r \<notin> set object_prototype_keys"
    by simp_all
  from merge_request_grouped [OF Cons.prems(1) Cons.prems(2) ok]
  obtain bp1 where bp1: "merge_request h bp r = Inr bp1" "distinct (map fst bp1)"
    "\<forall>k. map_of bp1 k = (if k \<in> request_id h ` set (rs0 @ [r])
                          then Some (spec_batch h (rs0 @ [r]) k) else None)"
    by blast
  from Cons.IH [OF bp1(2) bp1(3) rest]
  obtain bp' where "group_requests h bp1 rs = Inr bp'" "distinct (map fst bp')"
    "\<forall>k. map_of bp' k = (if k \<in> request_id h ` set ((rs0 @ [r]) @ rs)
                          then Some (spec_batch h ((rs0 @ [r]) @ rs) k) else None)"
    by blast
  then show ?case
    by (simp add: bp1(1))
qed

text \<open>
  Grouping agrees with the spec's batch when no id is the name of an inherited property:
  the keys are the ids of the requests, each once, and each key holds the spec's batch.
\<close>

lemma group_requests_spec:
  assumes "\<forall>r \<in> set rs. request_id h r \<notin> set object_prototype_keys"
  shows "\<exists>bp. group_requests h [] rs = Inr bp \<and> distinct (map fst bp)
           \<and> set bp = (\<lambda>k. (k, spec_batch h rs k)) ` request_id h ` set rs"
proof -
  have "\<forall>k. map_of [] k = (if k \<in> request_id h ` set []
                            then Some (spec_batch h [] k) else None)"
    by simp
  from group_requests_grouped [OF _ this assms]
  obtain bp where bp: "group_requests h [] rs = Inr bp" "distinct (map fst bp)"
    "\<forall>k. map_of bp k = (if k \<in> request_id h ` set rs then Some (spec_batch h rs k) else None)"
    by auto
  have "((k, b) \<in> set bp) = ((k, b) \<in> (\<lambda>k. (k, spec_batch h rs k)) ` request_id h ` set rs)"
    for k b
  proof -
    have "((k, b) \<in> set bp) = (map_of bp k = Some b)"
      using bp(2) by simp
    also have "\<dots> = (k \<in> request_id h ` set rs \<and> b = spec_batch h rs k)"
      by (auto simp: bp(3))
    also have "\<dots> = ((k, b) \<in> (\<lambda>k. (k, spec_batch h rs k)) ` request_id h ` set rs)"
      by auto
    finally show ?thesis .
  qed
  then have "set bp = (\<lambda>k. (k, spec_batch h rs k)) ` request_id h ` set rs"
    by auto
  with bp(1,2) show ?thesis by blast
qed

lemma mset_object_entries: "mset (object_entries obj) = mset obj"
  by (simp add: object_entries_def)

lemma object_entries_example:
  "map fst (object_entries [(''b'', x), (''10'', y), (''9'', z), (''07'', w)])
     = [''9'', ''10'', ''b'', ''07'']"
  by (simp add: object_entries_def is_array_index_def dec_value_def digit_value_def
      digit_chars_def)

lemma set_object_entries: "set (object_entries obj) = set obj"
  using mset_object_entries [of obj] by (metis set_mset_mset)

lemma distinct_object_entries:
  "distinct (map fst (object_entries obj)) = distinct (map fst obj)"
proof -
  have "mset (map fst (object_entries obj)) = mset (map fst obj)"
    by (simp add: mset_object_entries)
  then show ?thesis
    by (rule mset_eq_imp_distinct_iff)
qed

lemma length_object_entries: "length (object_entries obj) = length obj"
  using mset_object_entries [of obj] by (metis size_mset)

lemma product_id_post_batch:
  "product_id (products (mem (post_batch g b s)) q) = product_id (products (mem s) q)"
  by (simp add: mem_post_batch product_id_ensure_applicationUsername)

lemma calls_dispatch_batches:
  "\<exists>new. calls (dispatch g es s) = calls s @ new
         \<and> map data new = map (\<lambda>e. batch_product (snd e)) es
         \<and> map waiting new = map (\<lambda>e. callbacks (snd e)) es
         \<and> map (\<lambda>c. payload_id (body c)) new
             = map (\<lambda>e. product_id (products (mem s) (batch_product (snd e)))) es"
proof (induction g es s rule: dispatch.induct)
  case (1 g s)
  then show ?case by simp
next
  case (2 g productId b rest s)
  then obtain new where new: "calls (dispatch g rest (post_batch g b s))
      = calls (post_batch g b s) @ new"
    "map data new = map (\<lambda>e. batch_product (snd e)) rest"
    "map waiting new = map (\<lambda>e. callbacks (snd e)) rest"
    "map (\<lambda>c. payload_id (body c)) new
       = map (\<lambda>e. product_id (products (mem (post_batch g b s)) (batch_product (snd e)))) rest"
    by blast
  let ?c = "\<lparr>url = validator s, http_method = ''POST'', data = batch_product b,
              body = snapshot (ensure_applicationUsername g (mem s) (batch_product b))
                       (batch_product b),
              waiting = callbacks b\<rparr>"
  have "calls (dispatch g ((productId, b) # rest) s) = calls s @ (?c # new)"
    by (simp add: new(1) calls_post_batch)
  moreover have "map data (?c # new) = map (\<lambda>e. batch_product (snd e)) ((productId, b) # rest)"
    by (simp add: new(2))
  moreover have "map waiting (?c # new) = map (\<lambda>e. callbacks (snd e)) ((productId, b) # rest)"
    by (simp add: new(3))
  moreover have "map (\<lambda>c. payload_id (body c)) (?c # new)
      = map (\<lambda>e. product_id (products (mem s) (batch_product (snd e)))) ((productId, b) # rest)"
    by (simp add: new(4) product_id_post_batch snapshot_def
        product_id_ensure_applicationUsername)
  ultimately show ?case by blast
qed

text \<open>
  Requests for several products, none with an id that names an inherited property: one
  call per distinct id, and the call for an id carries the callbacks of exactly the
  requests with that id, in queue order, and the product of the last of them.
\<close>

lemma one_call_per_id:
  assumes ok: "\<forall>r \<in> set (validationRequests s).
                 request_id (mem s) r \<notin> set object_prototype_keys"
  shows "\<exists>new. snd (runValidation g s) = None
     \<and> calls (fst (runValidation g s)) = calls s @ new
     \<and> distinct (map (\<lambda>c. payload_id (body c)) new)
     \<and> set (map (\<lambda>c. payload_id (body c)) new)
         = request_id (mem s) ` set (validationRequests s)
     \<and> length new = card (request_id (mem s) ` set (validationRequests s))
     \<and> list_all (\<lambda>c. waiting c = callbacks (spec_batch (mem s) (validationRequests s)
                                               (payload_id (body c)))
                    \<and> data c = batch_product (spec_batch (mem s) (validationRequests s)
                                                (payload_id (body c)))) new"
proof -
  let ?h = "mem s" and ?rs = "validationRequests s"
  let ?s2 = "s\<lparr>timeout := None, validationRequests := []\<rparr>"
  from group_requests_spec [OF ok] obtain bp where
    bp: "group_requests ?h [] ?rs = Inr bp" "distinct (map fst bp)"
    "set bp = (\<lambda>k. (k, spec_batch ?h ?rs k)) ` request_id ?h ` set ?rs"
    by blast
  let ?es = "object_entries bp"
  have run: "runValidation g s = (dispatch g ?es ?s2, None)"
    by (simp add: runValidation_def dispatchAll_def bp(1))
  from calls_dispatch_batches [of g ?es ?s2] obtain new where
    new: "calls (dispatch g ?es ?s2) = calls s @ new"
    "map data new = map (\<lambda>e. batch_product (snd e)) ?es"
    "map waiting new = map (\<lambda>e. callbacks (snd e)) ?es"
    "map (\<lambda>c. payload_id (body c)) new
       = map (\<lambda>e. product_id (products ?h (batch_product (snd e)))) ?es"
    by auto
  have entry: "snd e = spec_batch ?h ?rs (fst e) \<and> fst e \<in> request_id ?h ` set ?rs"
    if "e \<in> set ?es" for e
    using that bp(3) by (auto simp: set_object_entries)
  have "map (\<lambda>e. product_id (products ?h (batch_product (snd e)))) ?es = map fst ?es"
    by (rule map_cong [OF refl]) (simp add: entry spec_batch_id)
  with new(4) have ids: "map (\<lambda>c. payload_id (body c)) new = map fst ?es"
    by simp
  have len: "length new = length ?es"
    using ids by (rule map_eq_imp_length_eq)
  have "distinct (map (\<lambda>c. payload_id (body c)) new)"
    by (simp add: ids distinct_object_entries bp(2))
  moreover have keys: "set (map fst ?es) = request_id ?h ` set ?rs"
    by (simp add: set_object_entries bp(3) image_image)
  then have "set (map (\<lambda>c. payload_id (body c)) new) = request_id ?h ` set ?rs"
    by (simp only: ids)
  moreover have "length new = card (request_id ?h ` set ?rs)"
  proof -
    have "length new = length (map fst bp)"
      by (simp add: len length_object_entries)
    also have "\<dots> = card (set (map fst bp))"
      using bp(2) by (simp only: distinct_card)
    also have "set (map fst bp) = request_id ?h ` set ?rs"
      by (simp add: bp(3) image_image)
    finally show ?thesis .
  qed
  moreover have "list_all (\<lambda>c. waiting c = callbacks (spec_batch ?h ?rs (payload_id (body c)))
                    \<and> data c = batch_product (spec_batch ?h ?rs (payload_id (body c)))) new"
    unfolding list_all_length
  proof (intro allI impI)
    fix i assume i: "i < length new"
    then have ie: "i < length ?es" by (simp add: len)
    then have mem: "?es ! i \<in> set ?es" by (rule nth_mem)
    have "payload_id (body (new ! i)) = fst (?es ! i)"
      using arg_cong [OF ids, of "\<lambda>xs. xs ! i"] i ie by simp
    moreover have "waiting (new ! i) = callbacks (snd (?es ! i))"
      using arg_cong [OF new(3), of "\<lambda>xs. xs ! i"] i ie by simp
    moreover have "data (new ! i) = batch_product (snd (?es ! i))"
      using arg_cong [OF new(2), of "\<lambda>xs. xs ! i"] i ie by simp
    ultimately show "waiting (new ! i)
          = callbacks (spec_batch ?h ?rs (payload_id (body (new ! i))))
        \<and> data (new ! i) = batch_product (spec_batch ?h ?rs (payload_id (body (new ! i))))"
      using entry [OF mem] by simp
  qed
  ultimately show ?thesis
    using run new(1) by auto
qed

lemma mset_filter_split:
  "mset (filter P rs) + mset (filter (\<lambda>r. \<not> P r) rs) = mset rs"
  by (induction rs) simp_all

lemma mset_concat_filter_keys:
  "distinct ks \<Longrightarrow> f ` set rs \<subseteq> set ks \<Longrightarrow>
   mset (concat (map (\<lambda>k. filter (\<lambda>r. f r = k) rs) ks)) = mset rs"
proof (induction ks arbitrary: rs)
  case Nil
  then show ?case by simp
next
  case (Cons k ks)
  let ?rest = "filter (\<lambda>r. \<not> f r = k) rs"
  have sub: "f ` set ?rest \<subseteq> set ks"
    using Cons.prems(2) by auto
  have d: "distinct ks" and fresh: "k \<notin> set ks"
    using Cons.prems(1) by simp_all
  have eq: "map (\<lambda>k'. filter (\<lambda>r. f r = k') rs) ks
              = map (\<lambda>k'. filter (\<lambda>r. f r = k') ?rest) ks"
  proof (rule map_cong [OF refl])
    fix k' assume "k' \<in> set ks"
    with fresh have "k' \<noteq> k" by auto
    then show "filter (\<lambda>r. f r = k') rs = filter (\<lambda>r. f r = k') ?rest"
      by (induction rs) auto
  qed
  have "mset (concat (map (\<lambda>k'. filter (\<lambda>r. f r = k') rs) ks)) = mset ?rest"
    unfolding eq by (rule Cons.IH [OF d sub])
  then have "mset (concat (map (\<lambda>k'. filter (\<lambda>r. f r = k') rs) (k # ks)))
      = mset (filter (\<lambda>r. f r = k) rs) + mset ?rest"
    by simp
  then show ?case
    by (simp only: mset_filter_split)
qed

text \<open>
  With no id that names an inherited property, the callbacks of the calls made are the
  callbacks of the captured requests, each once.
\<close>

lemma captured_all_dispatched:
  assumes ok: "\<forall>r \<in> set (validationRequests s).
                 request_id (mem s) r \<notin> set object_prototype_keys"
  shows "\<exists>new. snd (runValidation g s) = None
     \<and> calls (fst (runValidation g s)) = calls s @ new
     \<and> mset (concat (map waiting new)) = mset (map callback (validationRequests s))"
proof -
  let ?h = "mem s" and ?rs = "validationRequests s"
  from one_call_per_id [OF ok, of g] obtain new where
    new: "snd (runValidation g s) = None"
    "calls (fst (runValidation g s)) = calls s @ new"
    "distinct (map (\<lambda>c. payload_id (body c)) new)"
    "set (map (\<lambda>c. payload_id (body c)) new) = request_id ?h ` set ?rs"
    "list_all (\<lambda>c. waiting c = callbacks (spec_batch ?h ?rs (payload_id (body c)))
                    \<and> data c = batch_product (spec_batch ?h ?rs (payload_id (body c)))) new"
    by blast
  let ?ks = "map (\<lambda>c. payload_id (body c)) new"
  have w: "map waiting new
      = map (\<lambda>c. map callback (filter (\<lambda>r. request_id ?h r = payload_id (body c)) ?rs)) new"
  proof (rule map_cong [OF refl])
    fix c assume "c \<in> set new"
    with new(5) show "waiting c
        = map callback (filter (\<lambda>r. request_id ?h r = payload_id (body c)) ?rs)"
      by (simp add: list_all_iff spec_batch_def)
  qed
  have "concat (map waiting new)
      = map callback (concat (map (\<lambda>k. filter (\<lambda>r. request_id ?h r = k) ?rs) ?ks))"
    unfolding w by (simp add: map_concat comp_def)
  moreover have "mset (concat (map (\<lambda>k. filter (\<lambda>r. request_id ?h r = k) ?rs) ?ks)) = mset ?rs"
  proof (rule mset_concat_filter_keys)
    show "distinct ?ks" by (rule new(3))
    show "request_id ?h ` set ?rs \<subseteq> set ?ks" using new(4) by simp
  qed
  ultimately have "mset (concat (map waiting new)) = mset (map callback ?rs)"
    by (metis mset_map)
  with new(1,2) show ?thesis by blast
qed

text \<open>
  C2 fails as soon as one of the ids is the name of an inherited property: with the ids
  \<open>a\<close>, \<open>constructor\<close> and \<open>b\<close> in the queue the grouping throws at the second
  request, and no call is made, for \<open>a\<close> and \<open>b\<close> either.
\<close>

theorem mixed_ids_inherited_id_throws:
  "map (request_id (mem idle_world))
     [\<lparr>product = 1, callback = 10\<rparr>, \<lparr>product = 4, callback = 11\<rparr>, \<lparr>product = 3, callback = 12\<rparr>]
     = [''a'', ''constructor'', ''b'']
   \<and> runValidation username_of
       (idle_world\<lparr>validationRequests :=
          [\<lparr>product = 1, callback = 10\<rparr>, \<lparr>product = 4, callback = 11\<rparr>,
           \<lparr>product = 3, callback = 12\<rparr>]\<rparr>)
     = (idle_world, Some TypeError)
   \<and> calls idle_world = []"
  by (simp add: runValidation_def dispatchAll_def merge_request_def idle_world_def
      sample_heap_def object_prototype_keys_def request_id_def)

subsection \<open>Normalisation in place\<close>









lemma mem_runValidation_throws:
  "snd (runValidation g s) = Some e \<Longrightarrow> mem (fst (runValidation g s)) = mem s"
  by (auto simp: runValidation_def dispatchAll_def Let_def split: sum.splits)







subsection \<open>A run from end to end\<close>

text \<open>
  The example of the spec: a request for product \<open>a\<close>, a second request 700 ms later for
  \<open>a\<close> with a price, 1500 ms of quiet, the firing, and a success response. One POST is
  made, its body is the second product, and both callbacks receive the same outcome. The
  first timer would have been due at 1500; nothing can fire at 2199.
\<close>

lemma spec_example_run:
  "calls (run username_of None idle_world
            [Validate 1 10 Undefined, Elapse 700, Validate 2 12 Undefined, Elapse 1500, Fire,
             Succeed 0 (Obj [(''ok'', Bool True),
                             (''data'', Obj [(''transaction'', Obj [])])])])
     = [\<lparr>url = Url ''https://validator.fovea.cc'', http_method = ''POST'', data = 2,
         body = \<lparr>payload_id = ''a'', payload_additionalData = Some [],
                  payload_fields = [(''price'', Str ''$1'')]\<rparr>,
         waiting = [10, 12]\<rparr>]
   \<and> trace (run username_of None idle_world
            [Validate 1 10 Undefined, Elapse 700, Validate 2 12 Undefined, Elapse 1500, Fire,
             Succeed 0 (Obj [(''ok'', Bool True),
                             (''data'', Obj [(''transaction'', Obj [])])])])
     = [Invoke 10 (Val (Bool True)) (Val (Obj [(''transaction'', Obj [])])),
        Invoke 12 (Val (Bool True)) (Val (Obj [(''transaction'', Obj [])]))]
   \<and> fire username_of (run username_of None idle_world
            [Validate 1 10 Undefined, Elapse 700, Validate 2 12 Undefined, Elapse 1499])
     = None"
  by code_simp

end
